theory Spec2Isabelle
  imports Complex_Main
begin

section \<open>Tensors and the torch primitives the notebook calls\<close>

text \<open>
  The notebook \<^verbatim>\<open>gmm/GMM with PyTorch.ipynb\<close> computes on float tensors. The model
  idealises floats as real numbers; a one-dimensional tensor is a list, a two-dimensional
  tensor is the list of its rows. The functions below are the library calls the notebook
  makes, written for the tensor shapes its docstrings give: the theorems carry these
  shapes as hypotheses, and say nothing of other shapes (where torch raises or
  broadcasts an axis of size one).
\<close>

type_synonym vec = "real list"
type_synonym mat = "real list list"

text \<open>
  Exceptions that the code on the modelled paths can raise: \<open>TypeError\<close> is Python's own
  (calling an object that is not callable), \<open>RuntimeError\<close> stands for an error raised
  inside a torch call (an axis out of range, a reduction over an empty axis, a view that
  does not fit).
\<close>

datatype error = TypeError | RuntimeError

text \<open>\<^verbatim>\<open>torch.diag(v)\<close> of a vector: the square matrix with \<open>v\<close> on the diagonal.\<close>

definition torch_diag :: "vec \<Rightarrow> mat" where
  "torch_diag v =
     [[if i = j then v ! i else 0. j \<leftarrow> [0..<length v]]. i \<leftarrow> [0..<length v]]"

text \<open>
  \<^verbatim>\<open>torch.tril(W, k)\<close>: the entries on and below the \<open>k\<close>-th diagonal (column minus row
  at most \<open>k\<close>) are kept, the others are zero.
\<close>

definition torch_tril :: "mat \<Rightarrow> int \<Rightarrow> mat" where
  "torch_tril W k =
     [[if int j - int i \<le> k then W ! i ! j else 0. j \<leftarrow> [0..<length (W ! i)]].
        i \<leftarrow> [0..<length W]]"

text \<open>Elementwise sum and product of two matrices of one shape.\<close>

definition mat_add :: "mat \<Rightarrow> mat \<Rightarrow> mat" where
  "mat_add A B = map2 (map2 (+)) A B"

definition mat_mul_elem :: "mat \<Rightarrow> mat \<Rightarrow> mat" where
  "mat_mul_elem A B = map2 (map2 (*)) A B"

text \<open>The matrix product \<^verbatim>\<open>A @ B\<close>: entry \<open>(i, j)\<close> is row \<open>i\<close> of \<open>A\<close> times column \<open>j\<close> of \<open>B\<close>.\<close>

definition dot :: "vec \<Rightarrow> vec \<Rightarrow> real" where
  "dot xs ys = sum_list (map2 (*) xs ys)"

definition matmul :: "mat \<Rightarrow> mat \<Rightarrow> mat" where
  "matmul A B = map (\<lambda>row. map (dot row) (transpose B)) A"

text \<open>\<^verbatim>\<open>torch.sum(M, dim)\<close> for \<open>dim = 1\<close> (one sum per row) and \<open>dim = 0\<close> (one per column).\<close>

definition sum_dim1 :: "mat \<Rightarrow> vec" where
  "sum_dim1 M = map sum_list M"

definition sum_dim0 :: "mat \<Rightarrow> vec" where
  "sum_dim0 M = map sum_list (transpose M)"

text \<open>
  \<^verbatim>\<open>torch.mean\<close> of a vector. Of an empty vector torch returns \<open>nan\<close>, which the reals
  do not have: what is proved of a mean is proved for at least one sample.
\<close>

definition mean :: "vec \<Rightarrow> real" where
  "mean xs = sum_list xs / real (length xs)"

section \<open>The parametrised precision matrix\<close>

text \<open>
  \<^verbatim>\<open>H = torch.diag(torch.exp(d)) + torch.tril(W, -1)\<close> and
  \<^verbatim>\<open>P = H @ H.transpose(1, 0)\<close>, as in the cell that introduces the parametrisation and
  in the first two lines of \<^verbatim>\<open>loglik\<close>.
\<close>

definition cholesky_H :: "vec \<Rightarrow> mat \<Rightarrow> mat" where
  "cholesky_H d W = mat_add (torch_diag (map exp d)) (torch_tril W (- 1))"

definition precision_P :: "vec \<Rightarrow> mat \<Rightarrow> mat" where
  "precision_P d W = (let H = cholesky_H d W in matmul H (transpose H))"

text \<open>\<^verbatim>\<open>torch.prod(torch.exp(d.data) ** 2)\<close>: the determinant of \<open>P\<close> read off \<open>d\<close>.\<close>

definition det_from_d :: "vec \<Rightarrow> real" where
  "det_from_d d = prod_list (map (\<lambda>x. (exp x)\<^sup>2) d)"

section \<open>The Gaussian log-likelihood and its loss\<close>

text \<open>
  \<^verbatim>\<open>
  def loglik(X, mu, d, W):
      H = torch.diag(torch.exp(d)) + torch.tril(W, -1)
      P = H @ H.transpose(1, 0)
      diff = X - mu
      quad_form = torch.sum(diff * (diff @ P), dim=1)
      return (-0.5 * log(2 * np.pi) + torch.sum(d) - 0.5 * quad_form)

  def nll(X, mu, d, W):
      return -torch.mean(loglik(X, mu, d, W))
  \<close>
  \<open>X - mu\<close> subtracts \<open>mu\<close> from every row of \<open>X\<close>; the scalars of the last line are
  added to every entry of \<open>quad_form\<close>.
\<close>

definition loglik :: "mat \<Rightarrow> vec \<Rightarrow> vec \<Rightarrow> mat \<Rightarrow> vec" where
  "loglik X mu d W =
     (let P = precision_P d W;
          diff = map (\<lambda>x. map2 (-) x mu) X;
          quad_form = sum_dim1 (mat_mul_elem diff (matmul diff P))
      in map (\<lambda>q. - 0.5 * ln (2 * pi) + sum_list d - 0.5 * q) quad_form)"

definition nll :: "mat \<Rightarrow> vec \<Rightarrow> vec \<Rightarrow> mat \<Rightarrow> real" where
  "nll X mu d W = - mean (loglik X mu d W)"

section \<open>The stable log-sum-exp\<close>

text \<open>
  \<^verbatim>\<open>torch.max(data, dim)\<close> on a matrix returns the maxima along the axis \<open>dim\<close>
  (the indices it also returns are dropped by the caller); the model writes \<open>axis\<close> for
  the source's \<open>dim\<close>, a name HOL has taken. The axis of a matrix is one of
  \<open>-2, -1, 0, 1\<close>, a negative one counting from the last; any other axis, and a
  reduction over an axis of length zero, is an error raised by torch. \<open>max_list\<close> is the
  maximum of a nonempty list: it is called on the columns of the matrix (none is empty)
  and on rows checked to be nonempty, so its value on the empty list is never read.
\<close>

fun max_list :: "vec \<Rightarrow> real" where
  "max_list [] = 0"
| "max_list (x # xs) = fold max xs x"

definition torch_max :: "mat \<Rightarrow> int \<Rightarrow> error + vec" where
  "torch_max data axis =
     (if axis = 0 \<or> axis = - 2 then
        (if data = [] then Inl RuntimeError else Inr (map max_list (transpose data)))
      else if axis = 1 \<or> axis = - 1 then
        (if list_ex (\<lambda>row. row = []) data then Inl RuntimeError else Inr (map max_list data))
      else Inl RuntimeError)"

text \<open>
  \<^verbatim>\<open>
  def logsumexp(data, dim=0):
      max_score, _ = torch.max(data, dim)
      if dim == 0:
          max_score_bcast = max_score
      elif dim == 1:
          max_score_bcast = max_score.view(-1, 1)
      else:
          raise NotImplemented("logsumexp with dim=%d is not supported" % dim)
      return max_score + torch.log(torch.sum(torch.exp(data - max_score_bcast), dim))
  \<close>
  \<open>torch.max\<close> runs before the axis is looked at. \<open>NotImplemented\<close> is Python's constant
  of that name, not the exception class \<open>NotImplementedError\<close>: the call
  \<^verbatim>\<open>NotImplemented("...")\<close> in the last branch raises
  \<^verbatim>\<open>TypeError: 'NotImplementedType' object is not callable\<close> before any \<open>raise\<close>
  happens. For \<open>dim = 0\<close> the maxima (one per column) are subtracted from every row, for
  \<open>dim = 1\<close> the maximum of a row is subtracted from that row.
\<close>

definition logsumexp :: "mat \<Rightarrow> int \<Rightarrow> error + vec" where
  "logsumexp data axis =
     (case torch_max data axis of
        Inl e \<Rightarrow> Inl e
      | Inr max_score \<Rightarrow>
          if axis = 0 then
            Inr (map2 (+) max_score
                   (map ln (sum_dim0 (map (\<lambda>row. map exp (map2 (-) row max_score)) data))))
          else if axis = 1 then
            Inr (map2 (+) max_score
                   (map ln (sum_dim1 (map2 (\<lambda>row m. map (\<lambda>x. exp (x - m)) row) data max_score))))
          else Inl TypeError)"

section \<open>The mixture loss\<close>

text \<open>
  \<^verbatim>\<open>torch.nn.LogSoftmax()\<close> applied to a matrix normalises every row:
  entry \<open>x\<close> of a row \<open>xs\<close> becomes \<open>log (exp x / sum of exp over xs)\<close>.
\<close>

definition logsotfmax :: "mat \<Rightarrow> mat" where
  "logsotfmax ws = map (\<lambda>xs. map (\<lambda>x. ln (exp x / sum_list (map exp xs))) xs) ws"

text \<open>
  \<^verbatim>\<open>torch.nn.Softmax()\<close>, which the notebook applies to the trained logits to read the
  mixture weights off: entry \<open>x\<close> of a row \<open>xs\<close> becomes \<open>exp x / sum of exp over xs\<close>.
\<close>

definition softmax :: "mat \<Rightarrow> mat" where
  "softmax ws = map (\<lambda>xs. map (\<lambda>x. exp x / sum_list (map exp xs)) xs) ws"

text \<open>
  \<^verbatim>\<open>torch.cat\<close> of a list of vectors (an error on the empty list), and
  \<^verbatim>\<open>.view(n, -1)\<close> of a vector: \<open>n\<close> rows of equal length, an error when the vector is
  empty, \<open>n\<close> is zero or \<open>n\<close> does not divide the length.
\<close>

definition torch_cat :: "vec list \<Rightarrow> error + vec" where
  "torch_cat vs = (if vs = [] then Inl RuntimeError else Inr (concat vs))"

definition view_rows :: "vec \<Rightarrow> nat \<Rightarrow> error + mat" where
  "view_rows v n =
     (if n = 0 \<or> v = [] \<or> length v mod n \<noteq> 0 then Inl RuntimeError
      else Inr [take (length v div n) (drop (i * (length v div n)) v). i \<leftarrow> [0..<n]])"

text \<open>A matrix plus a column (a matrix with one entry per row), the column added to every column.\<close>

definition add_column :: "mat \<Rightarrow> mat \<Rightarrow> mat" where
  "add_column M C = map2 (\<lambda>row c. map (\<lambda>x. x + c ! 0) row) M C"

text \<open>
  \<^verbatim>\<open>
  def mixture_nll(X, weights, means, prec_diags, prec_off_diags):
      log_normalized_weights = logsotfmax(weights).transpose(1, 0)
      logliks = []
      for mu, d, W in zip(means, prec_diags, prec_off_diags):
          logliks.append(loglik(X, mu, d, W))

      logliks = torch.cat(logliks).view(n_components, -1)
      return torch.mean(-logsumexp(logliks + log_normalized_weights, dim=0))
  \<close>
  \<open>n_components\<close> is a global of the notebook, read when the function runs: it is the
  first argument of the model. \<open>weights\<close> is a matrix with one row (shape \<open>(1, K)\<close>).
\<close>

definition mixture_nll ::
  "nat \<Rightarrow> mat \<Rightarrow> mat \<Rightarrow> vec list \<Rightarrow> vec list \<Rightarrow> mat list \<Rightarrow> error + real" where
  "mixture_nll n_components X weights means prec_diags prec_off_diags =
     (let log_normalized_weights = transpose (logsotfmax weights);
          logliks = map (\<lambda>(mu, d, W). loglik X mu d W) (zip means (zip prec_diags prec_off_diags))
      in case torch_cat logliks of
           Inl e \<Rightarrow> Inl e
         | Inr flat \<Rightarrow>
             (case view_rows flat n_components of
                Inl e \<Rightarrow> Inl e
              | Inr M \<Rightarrow>
                  (case logsumexp (add_column M log_normalized_weights) 0 of
                     Inl e \<Rightarrow> Inl e
                   | Inr v \<Rightarrow> Inr (mean (map uminus v)))))"

section \<open>The optimisation loops\<close>

text \<open>
  The two training cells. Gradients and the Adam update are torch's: the model takes the
  loss as a function \<open>loss\<close> of the mutable state \<open>'p\<close> (the parameter tensors together
  with the optimizer's moments) and the three calls \<^verbatim>\<open>optimizer.zero_grad()\<close>,
  \<^verbatim>\<open>loss.backward()\<close>, \<^verbatim>\<open>optimizer.step()\<close> as one function \<open>step\<close> on that state.
  What a cell prints is kept as a list of events. The loss is taken to return a number,
  as \<open>nll\<close> does and as \<open>mixture_nll\<close> does on inputs of the shapes it is written for.
  \<^verbatim>\<open>
  for t in range(2000):
      loss = nll(X, mu, d, W)
      if t % 100 == 0:
          print(t, loss.data[0])
      optimizer.zero_grad()
      loss.backward()
      optimizer.step()
  \<close>
  The loop functions take the current index \<open>t\<close> and the number of iterations left.
\<close>

datatype event = Report nat real | Converged nat real

fun gaussian_loop ::
  "('p \<Rightarrow> real) \<Rightarrow> ('p \<Rightarrow> 'p) \<Rightarrow> nat \<Rightarrow> nat \<Rightarrow> 'p \<times> event list \<Rightarrow> 'p \<times> event list" where
  "gaussian_loop loss step t 0 s = s"
| "gaussian_loop loss step t (Suc n) (p, out) =
     (let l = loss p;
          out' = (if t mod 100 = 0 then out @ [Report t l] else out)
      in gaussian_loop loss step (Suc t) n (step p, out'))"

definition gaussian_fit :: "('p \<Rightarrow> real) \<Rightarrow> ('p \<Rightarrow> 'p) \<Rightarrow> 'p \<Rightarrow> 'p \<times> event list" where
  "gaussian_fit loss step p = gaussian_loop loss step 0 2000 (p, [])"

text \<open>
  \<^verbatim>\<open>
  best_loss = np.inf
  for t in range(5000):
      loss = mixture_nll(X, weights, means, prec_diags, prec_off_diags)
      if t % 100 == 0:
          print(t, loss.data[0])
      if loss.data.numpy() < best_loss:
          best_loss = loss.data.numpy()
      else:
          print(t, loss.data[0], 'converged!')
          break
      optimizer.zero_grad()
      loss.backward()
      optimizer.step()
  \<close>
  \<open>best_loss\<close> is \<open>None\<close> while it is \<open>np.inf\<close>, which every loss is below.
\<close>

record 'p fit_state =
  params :: 'p
  best_loss :: "real option"
  printed :: "event list"

definition less_best :: "real \<Rightarrow> real option \<Rightarrow> bool" where
  "less_best l b = (case b of None \<Rightarrow> True | Some b' \<Rightarrow> l < b')"

fun mixture_loop ::
  "('p \<Rightarrow> real) \<Rightarrow> ('p \<Rightarrow> 'p) \<Rightarrow> nat \<Rightarrow> nat \<Rightarrow> 'p fit_state \<Rightarrow> 'p fit_state" where
  "mixture_loop loss step t 0 s = s"
| "mixture_loop loss step t (Suc n) s =
     (let l = loss (params s);
          out = (if t mod 100 = 0 then printed s @ [Report t l] else printed s)
      in if less_best l (best_loss s)
         then mixture_loop loss step (Suc t) n
                \<lparr>params = step (params s), best_loss = Some l, printed = out\<rparr>
         else \<lparr>params = params s, best_loss = best_loss s, printed = out @ [Converged t l]\<rparr>)"

definition mixture_fit :: "('p \<Rightarrow> real) \<Rightarrow> ('p \<Rightarrow> 'p) \<Rightarrow> 'p \<Rightarrow> 'p fit_state" where
  "mixture_fit loss step p =
     mixture_loop loss step 0 5000 \<lparr>params = p, best_loss = None, printed = []\<rparr>"

section \<open>The vocabulary of the specification\<close>

text \<open>
  A matrix has shape \<open>(r, c)\<close> when it has \<open>r\<close> rows of length \<open>c\<close>.
\<close>

definition shape :: "mat \<Rightarrow> nat \<Rightarrow> nat \<Rightarrow> bool" where
  "shape M r c = (length M = r \<and> list_all (\<lambda>row. length row = c) M)"

text \<open>The quadratic form \<open>v\<^sup>T P v\<close>, and the maximum of column \<open>j\<close> of a score matrix.\<close>

definition quad_form :: "vec \<Rightarrow> mat \<Rightarrow> real" where
  "quad_form v P = (\<Sum>i<length v. \<Sum>j<length v. v ! i * P ! i ! j * v ! j)"

definition col_max :: "mat \<Rightarrow> nat \<Rightarrow> real" where
  "col_max data j = Max ((\<lambda>k. data ! k ! j) ` {..<length data})"

text \<open>
  The convergence policy in the specification's words: the loss of iteration \<open>t\<close> is the
  loss of the state after \<open>t\<close> updates; the best loss so far is the lowest loss of the
  iterations before \<open>t\<close>; iteration \<open>t\<close> improves when its loss is strictly below the best
  so far (nothing is best before the first iteration). \<open>reports\<close> are the lines printed
  every hundredth iteration.
\<close>

definition loss_at :: "('p \<Rightarrow> real) \<Rightarrow> ('p \<Rightarrow> 'p) \<Rightarrow> 'p \<Rightarrow> nat \<Rightarrow> real" where
  "loss_at loss step p t = loss ((step ^^ t) p)"

primrec best_so_far :: "('p \<Rightarrow> real) \<Rightarrow> ('p \<Rightarrow> 'p) \<Rightarrow> 'p \<Rightarrow> nat \<Rightarrow> real option" where
  "best_so_far loss step p 0 = None"
| "best_so_far loss step p (Suc t) =
     (case best_so_far loss step p t of
        None \<Rightarrow> Some (loss_at loss step p t)
      | Some b \<Rightarrow> Some (min b (loss_at loss step p t)))"

definition improves :: "('p \<Rightarrow> real) \<Rightarrow> ('p \<Rightarrow> 'p) \<Rightarrow> 'p \<Rightarrow> nat \<Rightarrow> bool" where
  "improves loss step p t =
     (case best_so_far loss step p t of
        None \<Rightarrow> True
      | Some b \<Rightarrow> loss_at loss step p t < b)"

definition reports :: "('p \<Rightarrow> real) \<Rightarrow> ('p \<Rightarrow> 'p) \<Rightarrow> 'p \<Rightarrow> nat \<Rightarrow> nat \<Rightarrow> event list" where
  "reports loss step p a b = [Report i (loss_at loss step p i). i \<leftarrow> [a..<b], i mod 100 = 0]"

text \<open>
  Two runs to try the loops on. The state is the number of updates made so far (the update
  is \<open>Suc\<close>); the loss is constant in the first run and falls with every update in the
  second.
\<close>

definition flat_loss :: "nat \<Rightarrow> real" where
  "flat_loss p = 0"

definition falling_loss :: "nat \<Rightarrow> real" where
  "falling_loss p = - real p"

text \<open>
  The determinant (what \<^verbatim>\<open>np.linalg.det\<close> computes in the notebook's check of the
  parametrisation), by Laplace expansion along the first column: \<open>minor i A\<close> is \<open>A\<close>
  without row \<open>i\<close> and without its first column, and \<open>det_fun n A\<close> is the determinant of
  the \<open>n\<close> by \<open>n\<close> matrix with entries \<open>A i j\<close>.
\<close>

definition minor :: "nat \<Rightarrow> (nat \<Rightarrow> nat \<Rightarrow> real) \<Rightarrow> nat \<Rightarrow> nat \<Rightarrow> real" where
  "minor i A = (\<lambda>r c. A (if r < i then r else Suc r) (Suc c))"

primrec det_fun :: "nat \<Rightarrow> (nat \<Rightarrow> nat \<Rightarrow> real) \<Rightarrow> real" where
  "det_fun 0 A = 1"
| "det_fun (Suc n) A = (\<Sum>i\<le>n. (- 1) ^ i * A i 0 * det_fun n (minor i A))"

definition det :: "mat \<Rightarrow> real" where
  "det M = det_fun (length M) (\<lambda>i j. M ! i ! j)"

section \<open>Shapes, entries and the matrix product\<close>

lemma shape_length: "shape M r c \<Longrightarrow> length M = r"
  by (simp add: shape_def)

lemma shape_row: "shape M r c \<Longrightarrow> i < r \<Longrightarrow> length (M ! i) = c"
  by (auto simp: shape_def list_all_length)

lemma shapeI: "length M = r \<Longrightarrow> (\<And>i. i < r \<Longrightarrow> length (M ! i) = c) \<Longrightarrow> shape M r c"
  by (auto simp: shape_def list_all_length)

lemma transpose_shape:
  assumes "shape M r c" "0 < r"
  shows "transpose M = map (\<lambda>j. map (\<lambda>i. M ! i ! j) [0..<r]) [0..<c]"
proof -
  have "transpose M = map (\<lambda>j. map (\<lambda>i. M ! i ! j) [0..<length M]) [0..<c]"
    using assms by (intro transpose_rectangle) (auto simp: shape_def list_all_length)
  then show ?thesis using assms by (simp add: shape_def)
qed

lemma shape_transpose:
  assumes "shape M r c" "0 < r"
  shows "shape (transpose M) c r"
  unfolding transpose_shape[OF assms] by (rule shapeI) simp_all

lemma transpose_transpose_shape:
  assumes "shape M r c" "0 < r" "0 < c"
  shows "transpose (transpose M) = M"
proof -
  have s: "shape (transpose M) c r" using assms by (simp add: shape_transpose)
  show ?thesis
    unfolding transpose_shape[OF s \<open>0 < c\<close>]
    using assms
    by (intro nth_equalityI) (auto simp: transpose_shape shape_length shape_row)
qed

lemma dot_sum: "length xs = n \<Longrightarrow> length ys = n \<Longrightarrow> dot xs ys = (\<Sum>k<n. xs ! k * ys ! k)"
  by (simp add: dot_def sum_list_sum_nth atLeast0LessThan)

lemma matmul_nth:
  assumes "shape A n m" "shape B m p" "0 < m" "i < n" "j < p"
  shows "matmul A B ! i ! j = (\<Sum>k<m. A ! i ! k * B ! k ! j)"
  using assms
  by (simp add: matmul_def shape_length transpose_shape dot_sum shape_row)

lemma shape_matmul:
  assumes "shape A n m" "shape B m p" "0 < m"
  shows "shape (matmul A B) n p"
proof (rule shapeI)
  show "length (matmul A B) = n" using assms by (simp add: matmul_def shape_length)
next
  fix i assume "i < n"
  then show "length (matmul A B ! i) = p"
    using assms by (simp add: matmul_def shape_length transpose_shape[of B m p])
qed

lemma cholesky_H_shape:
  assumes "length d = F" "shape W F F"
  shows "shape (cholesky_H d W) F F"
  using assms
  by (intro shapeI)
     (simp_all add: cholesky_H_def mat_add_def torch_diag_def torch_tril_def shape_length shape_row)

lemma cholesky_H_nth:
  assumes "length d = F" "shape W F F" "i < F" "j < F"
  shows "cholesky_H d W ! i ! j = (if i = j then exp (d ! i) else if j < i then W ! i ! j else 0)"
  using assms
  by (auto simp: cholesky_H_def mat_add_def torch_diag_def torch_tril_def shape_length shape_row)

lemma precision_P_shape:
  assumes "length d = F" "shape W F F"
  shows "shape (precision_P d W) F F"
proof (cases "F = 0")
  case True
  then show ?thesis using cholesky_H_shape[OF assms]
    by (simp add: precision_P_def matmul_def shape_def)
next
  case False
  then have F: "0 < F" by simp
  have H: "shape (cholesky_H d W) F F" by (rule cholesky_H_shape[OF assms])
  show ?thesis
    unfolding precision_P_def Let_def
    by (rule shape_matmul[OF H shape_transpose[OF H F] F])
qed

lemma precision_P_nth:
  assumes "length d = F" "shape W F F" "i < F" "j < F"
  shows "precision_P d W ! i ! j = (\<Sum>k<F. cholesky_H d W ! i ! k * cholesky_H d W ! j ! k)"
proof -
  have F: "0 < F" using assms by simp
  have H: "shape (cholesky_H d W) F F" by (rule cholesky_H_shape[OF assms(1,2)])
  have "precision_P d W ! i ! j
      = (\<Sum>k<F. cholesky_H d W ! i ! k * transpose (cholesky_H d W) ! k ! j)"
    unfolding precision_P_def Let_def
    by (rule matmul_nth[OF H shape_transpose[OF H F] F assms(3,4)])
  also have "\<dots> = (\<Sum>k<F. cholesky_H d W ! i ! k * cholesky_H d W ! j ! k)"
    using assms by (intro sum.cong) (simp_all add: transpose_shape[OF H F])
  finally show ?thesis .
qed

lemma row_quad_form:
  assumes P: "shape P F F" and v: "length v = F"
  shows "sum_list (map2 (*) v (map (dot v) (transpose P))) = quad_form v P"
proof (cases "F = 0")
  case True
  then show ?thesis using assms by (simp add: quad_form_def)
next
  case False
  then have F: "0 < F" by simp
  have "sum_list (map2 (*) v (map (dot v) (transpose P)))
      = (\<Sum>j<F. v ! j * dot v (transpose P ! j))"
    using v by (simp add: sum_list_sum_nth atLeast0LessThan transpose_shape[OF P F])
  also have "\<dots> = (\<Sum>j<F. v ! j * (\<Sum>i<F. v ! i * P ! i ! j))"
    using v by (intro sum.cong refl) (simp add: transpose_shape[OF P F] dot_sum[of _ F])
  also have "\<dots> = (\<Sum>j<F. \<Sum>i<F. v ! i * P ! i ! j * v ! j)"
    by (simp add: sum_distrib_left mult_ac)
  also have "\<dots> = (\<Sum>i<F. \<Sum>j<F. v ! i * P ! i ! j * v ! j)"
    by (rule sum.swap)
  finally show ?thesis using v by (simp add: quad_form_def)
qed

lemma loglik_eq:
  assumes "shape X N F" "length mu = F" "length d = F" "shape W F F"
  shows "loglik X mu d W =
           map (\<lambda>x. - 0.5 * ln (2 * pi) + sum_list d
                     - 0.5 * quad_form (map2 (-) x mu) (precision_P d W)) X"
proof -
  have P: "shape (precision_P d W) F F" by (rule precision_P_shape[OF assms(3,4)])
  have rows: "\<And>x. x \<in> set X \<Longrightarrow> length (map2 (-) x mu) = F"
    using assms by (auto simp: shape_def list_all_iff)
  show ?thesis
    unfolding loglik_def Let_def sum_dim1_def mat_mul_elem_def matmul_def
    by (rule nth_equalityI) (simp_all add: row_quad_form[OF P rows])
qed

lemma torch_tril_cong:
  assumes "shape W F F" "shape W' F F"
    and "\<And>i j. i < F \<Longrightarrow> j < i \<Longrightarrow> W ! i ! j = W' ! i ! j"
  shows "torch_tril W (- 1) = torch_tril W' (- 1)"
  unfolding torch_tril_def using assms
  by (intro nth_equalityI) (auto simp: shape_length shape_row)

lemma max_list_Max:
  assumes "xs \<noteq> []"
  shows "max_list xs = Max (set xs)"
proof (cases xs)
  case Nil
  then show ?thesis using assms by simp
next
  case (Cons a list)
  then show ?thesis using Max.set_eq_fold[of a list] by simp
qed

lemma torch_max_dim0:
  assumes "shape data K N" "0 < K"
  shows "torch_max data 0 = Inr (map (col_max data) [0..<N])"
proof -
  have ne: "data \<noteq> []" using assms by (auto simp: shape_def)
  have "map max_list (transpose data) = map (col_max data) [0..<N]"
    unfolding transpose_shape[OF assms]
    using assms by (simp add: max_list_Max col_max_def shape_length atLeast0LessThan)
  then show ?thesis using ne by (simp add: torch_max_def)
qed

lemma sum_dim0_shape:
  assumes "shape M K N" "0 < K"
  shows "sum_dim0 M = map (\<lambda>j. \<Sum>k<K. M ! k ! j) [0..<N]"
  unfolding sum_dim0_def transpose_shape[OF assms]
  by (simp add: sum_list_sum_nth atLeast0LessThan)

lemma logsumexp_shifted:
  assumes "shape data K N" "0 < K"
  shows "logsumexp data 0 =
           Inr (map (\<lambda>j. col_max data j + ln (\<Sum>k<K. exp (data ! k ! j - col_max data j))) [0..<N])"
proof -
  let ?ms = "map (col_max data) [0..<N]"
  let ?M = "map (\<lambda>row. map exp (map2 (-) row ?ms)) data"
  have M: "shape ?M K N"
    using assms by (intro shapeI) (simp_all add: shape_length shape_row)
  have Mnth: "\<And>k j. k < K \<Longrightarrow> j < N \<Longrightarrow> ?M ! k ! j = exp (data ! k ! j - col_max data j)"
    using assms by (simp add: shape_length shape_row)
  have "map2 (+) ?ms (map ln (sum_dim0 ?M))
      = map (\<lambda>j. col_max data j + ln (\<Sum>k<K. exp (data ! k ! j - col_max data j))) [0..<N]"
    unfolding sum_dim0_shape[OF M assms(2)]
  proof (rule nth_equalityI)
    fix i assume "i < length (map2 (+) ?ms (map ln (map (\<lambda>j. \<Sum>k<K. ?M ! k ! j) [0..<N])))"
    then have i: "i < N" by simp
    have "(\<Sum>k<K. ?M ! k ! i) = (\<Sum>k<K. exp (data ! k ! i - col_max data i))"
      by (intro sum.cong refl) (simp add: Mnth i del: map_map)
    then show "map2 (+) ?ms (map ln (map (\<lambda>j. \<Sum>k<K. ?M ! k ! j) [0..<N])) ! i
             = map (\<lambda>j. col_max data j + ln (\<Sum>k<K. exp (data ! k ! j - col_max data j))) [0..<N] ! i"
      using i by (simp del: map_map)
  qed simp
  then show ?thesis
    by (simp add: logsumexp_def torch_max_dim0[OF assms])
qed

lemma shift_log_sum_exp:
  assumes "0 < (K::nat)"
  shows "m + ln (\<Sum>k<K. exp (f k - m)) = ln (\<Sum>k<K. exp (f k :: real))"
proof -
  have pos: "0 < (\<Sum>k<K. exp (f k - m))"
    using assms by (intro sum_pos) auto
  have "(\<Sum>k<K. exp (f k)) = exp m * (\<Sum>k<K. exp (f k - m))"
    by (simp add: sum_distrib_left exp_diff)
  then show ?thesis using pos by (simp add: ln_mult)
qed

lemma logsumexp_naive:
  assumes "shape data K N" "0 < K"
  shows "logsumexp data 0 = Inr (map (\<lambda>j. ln (\<Sum>k<K. exp (data ! k ! j))) [0..<N])"
  by (simp add: logsumexp_shifted[OF assms] shift_log_sum_exp[OF assms(2)])

lemma length_loglik: "length (loglik X mu d W) = length X"
  by (simp add: loglik_def sum_dim1_def mat_mul_elem_def matmul_def)

lemma take_drop_concat:
  assumes "list_all (\<lambda>l. length l = N) ls" "i < length ls"
  shows "take N (drop (i * N) (concat ls)) = ls ! i"
  using assms
proof (induction ls arbitrary: i)
  case Nil
  then show ?case by simp
next
  case (Cons l ls)
  show ?case
  proof (cases i)
    case 0
    then show ?thesis using Cons.prems by simp
  next
    case (Suc i')
    then have "drop (i * N) (concat (l # ls)) = drop (i' * N) (concat ls)"
      using Cons.prems by simp
    then show ?thesis using Cons.IH[of i'] Cons.prems Suc by simp
  qed
qed

lemma length_concat_equal:
  "list_all (\<lambda>l. length l = N) ls \<Longrightarrow> length (concat ls) = length ls * N"
  by (induction ls) simp_all

lemma view_rows_concat:
  assumes "list_all (\<lambda>l. length l = N) ls" "ls \<noteq> []" "0 < N"
  shows "view_rows (concat ls) (length ls) = Inr ls"
proof -
  have len: "length (concat ls) = length ls * N" by (rule length_concat_equal[OF assms(1)])
  have K: "0 < length ls" using assms(2) by simp
  have ne: "concat ls \<noteq> []" using len K assms(3) by (metis length_0_conv mult_is_0 less_numeral_extra(3))
  have "map (\<lambda>i. take N (drop (i * N) (concat ls))) [0..<length ls] = ls"
    by (rule nth_equalityI) (simp_all add: take_drop_concat[OF assms(1)])
  then show ?thesis using len K ne by (simp add: view_rows_def)
qed

lemma transpose_single_row:
  assumes "xs \<noteq> []"
  shows "transpose [xs] = map (\<lambda>x. [x]) (xs :: vec)"
proof -
  have s: "shape [xs] 1 (length xs)" by (simp add: shape_def)
  show ?thesis
    unfolding transpose_shape[OF s zero_less_one]
    by (rule nth_equalityI) simp_all
qed

lemma log_softmax_row:
  assumes "omega \<noteq> []"
  shows "map (\<lambda>x. ln (exp x / sum_list (map exp omega))) (omega :: vec)
       = map (\<lambda>x. x - ln (\<Sum>l<length omega. exp (omega ! l))) omega"
proof -
  have S: "sum_list (map exp omega) = (\<Sum>l<length omega. exp (omega ! l))"
    by (simp add: sum_list_sum_nth atLeast0LessThan)
  have pos: "0 < (\<Sum>l<length omega. exp (omega ! l))"
    using assms by (intro sum_pos) auto
  show ?thesis unfolding S using pos by (simp add: ln_div)
qed

lemma mean_uminus: "mean (map uminus v) = - mean v"
proof -
  have "sum_list (map uminus v) = - sum_list v"
    by (induction v) simp_all
  then show ?thesis by (simp add: mean_def)
qed

lemma mixture_nll_eq:
  assumes N: "length X = N" "0 < N"
    and K: "0 < K" "length omega = K" "length means = K" "length prec_diags = K"
      "length prec_off_diags = K"
  shows "mixture_nll K X [omega] means prec_diags prec_off_diags =
     Inr (- (\<Sum>j<N. ln (\<Sum>k<K. exp (loglik X (means ! k) (prec_diags ! k) (prec_off_diags ! k) ! j
                                          + (omega ! k - ln (\<Sum>l<K. exp (omega ! l)))))) / real N)"
proof -
  define ls where "ls = map (\<lambda>(mu, d, W). loglik X mu d W) (zip means (zip prec_diags prec_off_diags))"
  define lw where "lw = map (\<lambda>x. x - ln (\<Sum>l<K. exp (omega ! l))) omega"
  define M where "M = add_column ls (map (\<lambda>x. [x]) lw)"
  have len_ls: "length ls = K" using K by (simp add: ls_def)
  have ls_nth: "\<And>k. k < K \<Longrightarrow> ls ! k = loglik X (means ! k) (prec_diags ! k) (prec_off_diags ! k)"
    using K by (simp add: ls_def)
  have all: "list_all (\<lambda>l. length l = N) ls"
    using N by (simp add: list_all_length len_ls ls_nth length_loglik)
  have ne: "ls \<noteq> []" using len_ls K(1) by auto
  have cat: "torch_cat ls = Inr (concat ls)" using ne by (simp add: torch_cat_def)
  have view: "view_rows (concat ls) K = Inr ls"
    using view_rows_concat[OF all ne N(2)] by (simp add: len_ls)
  have omega_ne: "omega \<noteq> []" using K by auto
  have lnw: "transpose (logsotfmax [omega]) = map (\<lambda>x. [x]) lw"
    using omega_ne K(2)
    by (simp add: logsotfmax_def log_softmax_row lw_def transpose_single_row)
  have M_shape: "shape M K N"
    using all K by (intro shapeI) (simp_all add: M_def add_column_def len_ls lw_def list_all_length)
  have M_nth: "\<And>k j. k < K \<Longrightarrow> j < N \<Longrightarrow>
      M ! k ! j = loglik X (means ! k) (prec_diags ! k) (prec_off_diags ! k) ! j
                  + (omega ! k - ln (\<Sum>l<K. exp (omega ! l)))"
    using K N by (simp add: M_def add_column_def len_ls lw_def ls_nth length_loglik)
  have lse: "logsumexp M 0 = Inr (map (\<lambda>j. ln (\<Sum>k<K. exp (M ! k ! j))) [0..<N])"
    by (rule logsumexp_naive[OF M_shape K(1)])
  have "mean (map uminus (map (\<lambda>j. ln (\<Sum>k<K. exp (M ! k ! j))) [0..<N]))
      = - (\<Sum>j<N. ln (\<Sum>k<K. exp (M ! k ! j))) / real N"
    unfolding mean_uminus by (simp add: mean_def sum_list_sum_nth atLeast0LessThan)
  also have "(\<Sum>j<N. ln (\<Sum>k<K. exp (M ! k ! j)))
      = (\<Sum>j<N. ln (\<Sum>k<K. exp (loglik X (means ! k) (prec_diags ! k) (prec_off_diags ! k) ! j
                                          + (omega ! k - ln (\<Sum>l<K. exp (omega ! l))))))"
    by (intro sum.cong refl arg_cong[where f = ln]) (simp add: M_nth)
  finally have m: "mean (map uminus (map (\<lambda>j. ln (\<Sum>k<K. exp (M ! k ! j))) [0..<N]))
      = - (\<Sum>j<N. ln (\<Sum>k<K. exp (loglik X (means ! k) (prec_diags ! k) (prec_off_diags ! k) ! j
                                          + (omega ! k - ln (\<Sum>l<K. exp (omega ! l)))))) / real N" .
  show ?thesis
    unfolding mixture_nll_def Let_def lnw ls_def[symmetric]
    by (simp add: cat view M_def[symmetric] lse m del: map_map)
qed

lemma sum_list_exp_shift:
  "sum_list (map (\<lambda>y. exp (y + c)) xs) = exp c * sum_list (map exp (xs :: vec))"
  by (induction xs) (simp_all add: exp_add algebra_simps)

lemma log_softmax_row_shift:
  "map (\<lambda>x. ln (exp x / sum_list (map exp (map (\<lambda>w. w + c) xs)))) (map (\<lambda>w. w + c) xs)
   = map (\<lambda>x. ln (exp x / sum_list (map exp xs))) (xs :: vec)"
proof -
  have "exp (x + c) / (exp c * sum_list (map exp xs)) = exp x / sum_list (map exp xs)" for x
    by (simp add: exp_add)
  then show ?thesis
    by (simp add: o_def sum_list_exp_shift)
qed

lemma logsotfmax_shift:
  "logsotfmax (map (map (\<lambda>w. w + c)) weights) = logsotfmax weights"
proof -
  have "(\<lambda>xs. map (\<lambda>x. ln (exp x / sum_list (map exp xs))) xs) \<circ> map (\<lambda>w. w + c)
      = (\<lambda>xs. map (\<lambda>x. ln (exp x / sum_list (map exp xs))) xs)"
    by (rule ext) (simp only: o_apply log_softmax_row_shift)
  then show ?thesis
    by (simp only: logsotfmax_def map_map)
qed

lemma softmax_shift:
  "softmax (map (map (\<lambda>w. w + c)) weights) = softmax weights"
proof -
  have row: "map (\<lambda>x. exp x / sum_list (map exp (map (\<lambda>w. w + c) xs))) (map (\<lambda>w. w + c) xs)
           = map (\<lambda>x. exp x / sum_list (map exp xs)) xs" for xs :: vec
  proof -
    have "exp (x + c) / (exp c * sum_list (map exp xs)) = exp x / sum_list (map exp xs)" for x
      by (simp add: exp_add)
    then show ?thesis
      by (simp add: o_def sum_list_exp_shift)
  qed
  have "(\<lambda>xs. map (\<lambda>x. exp x / sum_list (map exp xs)) xs) \<circ> map (\<lambda>w. w + c)
      = (\<lambda>xs. map (\<lambda>x. exp x / sum_list (map exp xs)) xs)"
    by (rule ext) (simp only: o_apply row)
  then show ?thesis
    by (simp only: softmax_def map_map)
qed

lemma logsumexp_single_row: "logsumexp [row] 0 = Inr row"
proof -
  have s: "shape [row] 1 (length row)" by (simp add: shape_def)
  have "map (\<lambda>j. col_max [row] j + ln (\<Sum>k<1. exp ([row] ! k ! j - col_max [row] j))) [0..<length row]
      = map (\<lambda>j. row ! j) [0..<length row]"
    by (simp add: col_max_def)
  then show ?thesis
    unfolding logsumexp_shifted[OF s zero_less_one] by (simp add: map_nth)
qed

lemma mixture_nll_single:
  assumes "X \<noteq> []"
  shows "mixture_nll 1 X [[w]] [mu] [d] [W] = Inr (nll X mu d W)"
proof -
  have N: "0 < length X" using assms by simp
  have "(\<Sum>j<length X. ln (\<Sum>k<1. exp (loglik X ([mu] ! k) ([d] ! k) ([W] ! k) ! j
            + ([w] ! k - ln (\<Sum>l<1. exp ([w] ! l))))))
      = (\<Sum>j<length X. loglik X mu d W ! j)"
    by simp
  also have "\<dots> = sum_list (loglik X mu d W)"
    by (simp add: sum_list_sum_nth atLeast0LessThan length_loglik)
  finally show ?thesis
    using mixture_nll_eq[of X "length X" 1 "[w]" "[mu]" "[d]" "[W]", OF refl N]
    by (simp add: nll_def mean_def length_loglik)
qed


section \<open>Runs of the two loops\<close>

lemma reports_Cons:
  "a < b \<Longrightarrow> reports loss step p a b
     = (if a mod 100 = 0 then [Report a (loss_at loss step p a)] else [])
       @ reports loss step p (Suc a) b"
  by (simp add: reports_def upt_conv_Cons)

lemma gaussian_loop_run:
  "gaussian_loop loss step t n ((step ^^ t) p, out)
     = ((step ^^ (t + n)) p, out @ reports loss step p t (t + n))"
proof (induction n arbitrary: t out)
  case 0
  then show ?case by (simp add: reports_def)
next
  case (Suc n)
  have r: "reports loss step p t (Suc (t + n))
         = (if t mod 100 = 0 then [Report t (loss_at loss step p t)] else [])
           @ reports loss step p (Suc t) (Suc (t + n))"
    by (rule reports_Cons) simp
  show ?case
    using Suc.IH[of "Suc t"] by (simp add: Let_def r loss_at_def)
qed

lemma improves_step:
  assumes "improves loss step p t"
  shows "best_so_far loss step p (Suc t) = Some (loss_at loss step p t)"
  using assms by (simp add: improves_def split: option.splits)

lemma improves_less_best:
  "less_best (loss_at loss step p t) (best_so_far loss step p t) = improves loss step p t"
  by (simp add: improves_def less_best_def)

lemma mixture_loop_run:
  assumes "\<And>i. t \<le> i \<Longrightarrow> i < t + n \<Longrightarrow> improves loss step p i"
  shows "mixture_loop loss step t n
           \<lparr>params = (step ^^ t) p, best_loss = best_so_far loss step p t, printed = out\<rparr>
       = \<lparr>params = (step ^^ (t + n)) p, best_loss = best_so_far loss step p (t + n),
          printed = out @ reports loss step p t (t + n)\<rparr>"
  using assms
proof (induction n arbitrary: t out)
  case 0
  then show ?case by (simp add: reports_def)
next
  case (Suc n)
  have imp: "improves loss step p t" using Suc.prems[of t] by simp
  have rest: "\<And>i. Suc t \<le> i \<Longrightarrow> i < Suc t + n \<Longrightarrow> improves loss step p i"
    using Suc.prems by simp
  have lb: "less_best (loss ((step ^^ t) p)) (best_so_far loss step p t)"
    using imp improves_less_best[of loss step p t] by (simp add: loss_at_def)
  have b: "Some (loss ((step ^^ t) p)) = best_so_far loss step p (Suc t)"
    using improves_step[OF imp] by (simp add: loss_at_def)
  show ?case
  proof (cases "t mod 100 = 0")
    case True
    then show ?thesis
      using Suc.IH[where t = "Suc t" and out = "out @ [Report t (loss ((step ^^ t) p))]", OF rest]
      by (simp add: Let_def lb b reports_Cons[of t "Suc (t + n)"] loss_at_def del: best_so_far.simps)
  next
    case False
    then show ?thesis
      using Suc.IH[where t = "Suc t" and out = out, OF rest]
      by (simp add: Let_def lb b reports_Cons[of t "Suc (t + n)"] loss_at_def del: best_so_far.simps)
  qed
qed

lemma mixture_loop_stop:
  assumes "t \<le> j" "j < t + n" "\<not> improves loss step p j"
    and "\<And>i. t \<le> i \<Longrightarrow> i < j \<Longrightarrow> improves loss step p i"
  shows "mixture_loop loss step t n
           \<lparr>params = (step ^^ t) p, best_loss = best_so_far loss step p t, printed = out\<rparr>
       = \<lparr>params = (step ^^ j) p, best_loss = best_so_far loss step p j,
          printed = out @ reports loss step p t (Suc j) @ [Converged j (loss_at loss step p j)]\<rparr>"
  using assms
proof (induction n arbitrary: t out)
  case 0
  then show ?case by simp
next
  case (Suc n)
  show ?case
  proof (cases "t = j")
    case True
    have lb: "\<not> less_best (loss ((step ^^ j) p)) (best_so_far loss step p j)"
      using Suc.prems(3) improves_less_best[of loss step p j] by (simp add: loss_at_def)
    show ?thesis
      using True lb by (simp add: Let_def reports_def loss_at_def)
  next
    case False
    then have tj: "Suc t \<le> j" using Suc.prems(1) by simp
    have imp: "improves loss step p t" using Suc.prems(4)[of t] False Suc.prems(1) by simp
    have lb: "less_best (loss ((step ^^ t) p)) (best_so_far loss step p t)"
      using imp improves_less_best[of loss step p t] by (simp add: loss_at_def)
    have b: "Some (loss ((step ^^ t) p)) = best_so_far loss step p (Suc t)"
      using improves_step[OF imp] by (simp add: loss_at_def)
    have jn: "j < Suc t + n" using Suc.prems(2) by simp
    have rest: "\<And>i. Suc t \<le> i \<Longrightarrow> i < j \<Longrightarrow> improves loss step p i"
      using Suc.prems(4) by simp
    have tj': "t < Suc j" using tj by simp
    show ?thesis
    proof (cases "t mod 100 = 0")
      case True
      then show ?thesis
        using Suc.IH[where t = "Suc t" and out = "out @ [Report t (loss ((step ^^ t) p))]",
            OF tj jn Suc.prems(3) rest]
        by (simp add: Let_def lb b reports_Cons[OF tj'] loss_at_def del: best_so_far.simps)
    next
      case False
      then show ?thesis
        using Suc.IH[where t = "Suc t" and out = out, OF tj jn Suc.prems(3) rest]
        by (simp add: Let_def lb b reports_Cons[OF tj'] loss_at_def del: best_so_far.simps)
    qed
  qed
qed

lemma mixture_fit_stop:
  assumes "j < 5000" "\<not> improves loss step p j" "\<forall>i<j. improves loss step p i"
  shows "mixture_fit loss step p =
           \<lparr>params = (step ^^ j) p, best_loss = best_so_far loss step p j,
            printed = reports loss step p 0 (Suc j) @ [Converged j (loss_at loss step p j)]\<rparr>"
  using mixture_loop_stop[of 0 j 5000 loss step p "[]"] assms
  by (simp add: mixture_fit_def)

lemma mixture_fit_run:
  assumes "\<forall>i<5000. improves loss step p i"
  shows "mixture_fit loss step p =
           \<lparr>params = (step ^^ 5000) p, best_loss = best_so_far loss step p 5000,
            printed = reports loss step p 0 5000\<rparr>"
  using mixture_loop_run[of 0 5000 loss step p "[]"] assms
  by (simp add: mixture_fit_def)

lemma gaussian_fit_run:
  "gaussian_fit loss step p = ((step ^^ 2000) p, reports loss step p 0 2000)"
  using gaussian_loop_run[of loss step 0 2000 p "[]"]
  by (simp add: gaussian_fit_def)

lemma best_so_far_falling:
  "best_so_far falling_loss Suc 0 (Suc t) = Some (- real t)"
  by (induction t) (simp_all add: loss_at_def falling_loss_def min_def)

lemma improves_falling: "improves falling_loss Suc 0 t"
proof (cases t)
  case 0
  then show ?thesis by (simp add: improves_def)
next
  case (Suc k)
  then show ?thesis
    by (simp add: improves_def best_so_far_falling loss_at_def falling_loss_def
        del: best_so_far.simps)
qed

lemma not_improves_flat: "\<not> improves flat_loss Suc 0 1"
  by (simp add: improves_def loss_at_def flat_loss_def)

lemma logsumexp_other_axis:
  assumes "axis \<noteq> 0" "axis \<noteq> 1"
  shows "logsumexp data axis = Inl TypeError \<or> logsumexp data axis = Inl RuntimeError"
  using assms by (simp add: logsumexp_def torch_max_def)


section \<open>The precision matrix is a Gram matrix of a triangular factor\<close>

lemma quad_gram:
  fixes v :: "nat \<Rightarrow> real" and h :: "nat \<Rightarrow> nat \<Rightarrow> real"
  shows "(\<Sum>i<n. \<Sum>j<n. v i * (\<Sum>k<n. h i k * h j k) * v j) = (\<Sum>k<n. (\<Sum>i<n. v i * h i k)\<^sup>2)"
proof -
  have "(\<Sum>i<n. \<Sum>j<n. v i * (\<Sum>k<n. h i k * h j k) * v j)
      = (\<Sum>i<n. \<Sum>j<n. \<Sum>k<n. (v i * h i k) * (v j * h j k))"
    by (simp add: sum_distrib_left sum_distrib_right mult_ac)
  also have "\<dots> = (\<Sum>i<n. \<Sum>k<n. \<Sum>j<n. (v i * h i k) * (v j * h j k))"
    by (intro sum.cong refl sum.swap)
  also have "\<dots> = (\<Sum>k<n. \<Sum>i<n. \<Sum>j<n. (v i * h i k) * (v j * h j k))"
    by (rule sum.swap)
  also have "\<dots> = (\<Sum>k<n. (\<Sum>i<n. v i * h i k)\<^sup>2)"
    by (simp add: power2_eq_square sum_product)
  finally show ?thesis .
qed

lemma triangular_kernel:
  fixes v :: "nat \<Rightarrow> real" and h :: "nat \<Rightarrow> nat \<Rightarrow> real"
  assumes tri: "\<And>i k. i < k \<Longrightarrow> k < n \<Longrightarrow> h i k = 0"
    and diag: "\<And>k. k < n \<Longrightarrow> h k k \<noteq> 0"
    and zero: "\<And>k. k < n \<Longrightarrow> (\<Sum>i<n. v i * h i k) = 0"
  shows "m \<le> n \<Longrightarrow> n - m \<le> i \<Longrightarrow> i < n \<Longrightarrow> v i = 0"
proof (induction m arbitrary: i)
  case 0
  then show ?case by simp
next
  case (Suc m)
  show ?case
  proof (cases "n - m \<le> i")
    case True
    then show ?thesis using Suc.IH[of i] Suc.prems by simp
  next
    case False
    then have i: "i = n - Suc m" using Suc.prems by simp
    have rest: "(\<Sum>j\<in>{..<n} - {i}. v j * h j i) = 0"
    proof (rule sum.neutral, rule ballI)
      fix j assume j: "j \<in> {..<n} - {i}"
      show "v j * h j i = 0"
      proof (cases "j < i")
        case True
        then show ?thesis using tri[of j i] Suc.prems by simp
      next
        case False
        then have "n - m \<le> j" using j i by auto
        then have "v j = 0" using Suc.IH[of j] Suc.prems j by simp
        then show ?thesis by simp
      qed
    qed
    have "(\<Sum>j<n. v j * h j i) = v i * h i i + (\<Sum>j\<in>{..<n} - {i}. v j * h j i)"
      using Suc.prems by (intro sum.remove) simp_all
    then have "v i * h i i = 0" using zero[of i] rest Suc.prems by simp
    then show ?thesis using diag[of i] Suc.prems by simp
  qed
qed

lemma gram_positive:
  fixes v :: "nat \<Rightarrow> real" and h :: "nat \<Rightarrow> nat \<Rightarrow> real"
  assumes tri: "\<And>i k. i < k \<Longrightarrow> k < n \<Longrightarrow> h i k = 0"
    and diag: "\<And>k. k < n \<Longrightarrow> h k k \<noteq> 0"
    and nz: "i < n" "v i \<noteq> 0"
  shows "0 < (\<Sum>i<n. \<Sum>j<n. v i * (\<Sum>k<n. h i k * h j k) * v j)"
proof -
  let ?u = "\<lambda>k. \<Sum>i<n. v i * h i k"
  have nonneg: "0 \<le> (\<Sum>k<n. (?u k)\<^sup>2)" by (intro sum_nonneg) simp
  have "(\<Sum>k<n. (?u k)\<^sup>2) \<noteq> 0"
  proof
    assume "(\<Sum>k<n. (?u k)\<^sup>2) = 0"
    then have "\<forall>k\<in>{..<n}. (?u k)\<^sup>2 = 0"
      by (subst (asm) sum_nonneg_eq_0_iff) simp_all
    then have z: "\<And>k. k < n \<Longrightarrow> ?u k = 0" by simp
    have "v i = 0"
      by (rule triangular_kernel[of n h v n i, OF tri diag z]) (use nz in simp_all)
    then show False using nz by simp
  qed
  then show ?thesis using nonneg unfolding quad_gram by linarith
qed

lemma precision_P_symmetric_nth:
  assumes "length d = F" "shape W F F" "i < F" "j < F"
  shows "precision_P d W ! i ! j = precision_P d W ! j ! i"
  using assms by (simp add: precision_P_nth[of d F W] mult.commute)

lemma precision_P_transpose:
  assumes "length d = F" "shape W F F"
  shows "transpose (precision_P d W) = precision_P d W"
proof (cases "F = 0")
  case True
  then have "precision_P d W = []" using precision_P_shape[OF assms] by (simp add: shape_def)
  then show ?thesis by simp
next
  case False
  then have F: "0 < F" by simp
  have P: "shape (precision_P d W) F F" by (rule precision_P_shape[OF assms])
  show ?thesis
    unfolding transpose_shape[OF P F]
    using P by (intro nth_equalityI)
      (simp_all add: shape_length shape_row precision_P_symmetric_nth[OF assms])
qed

lemma precision_P_positive:
  assumes d: "length d = F" and W: "shape W F F" and v: "length v = F" and nz: "i < F" "v ! i \<noteq> 0"
  shows "0 < quad_form v (precision_P d W)"
proof -
  let ?h = "\<lambda>i k. cholesky_H d W ! i ! k"
  have tri: "\<And>i k. i < k \<Longrightarrow> k < F \<Longrightarrow> ?h i k = 0"
    using cholesky_H_nth[OF d W] by simp
  have diag: "\<And>k. k < F \<Longrightarrow> ?h k k \<noteq> 0"
    using cholesky_H_nth[OF d W] by simp
  have "quad_form v (precision_P d W)
      = (\<Sum>i<F. \<Sum>j<F. v ! i * (\<Sum>k<F. ?h i k * ?h j k) * v ! j)"
    unfolding quad_form_def v
    by (intro sum.cong refl) (simp add: precision_P_nth[OF d W])
  also have "0 < \<dots>"
    by (rule gram_positive[of F ?h i "\<lambda>i. v ! i", OF tri diag nz])
  finally show ?thesis .
qed

section \<open>Determinants: row operations and triangular matrices\<close>

lemma det_fun_cong:
  "(\<And>i j. i < n \<Longrightarrow> j < n \<Longrightarrow> A i j = B i j) \<Longrightarrow> det_fun n A = det_fun n B"
proof (induction n arbitrary: A B)
  case 0
  then show ?case by simp
next
  case (Suc n)
  have "det_fun n (minor i A) = det_fun n (minor i B)" if "i \<le> n" for i
    by (rule Suc.IH) (simp add: minor_def Suc.prems)
  then show ?case
    by (simp add: Suc.prems)
qed

lemma minor_upd_same: "minor i (A(i := x)) = minor i A"
  by (auto simp: minor_def fun_eq_iff)

lemma minor_upd_other:
  "r \<noteq> i \<Longrightarrow> minor i (A(r := x)) = (minor i A)((if r < i then r else r - 1) := (\<lambda>c. x (Suc c)))"
  by (auto simp: minor_def fun_eq_iff)

lemma det_fun_row_linear:
  "r \<le> n \<Longrightarrow>
   det_fun (Suc n) (A(r := \<lambda>c. a * u c + b * w c))
     = a * det_fun (Suc n) (A(r := u)) + b * det_fun (Suc n) (A(r := w))"
proof (induction n arbitrary: A r u w)
  case 0
  then show ?case by simp
next
  case (Suc n)
  let ?f = "\<lambda>x i. (- 1) ^ i * (A(r := x)) i 0 * det_fun (Suc n) (minor i (A(r := x)))"
  have tm: "?f (\<lambda>c. a * u c + b * w c) i = a * ?f u i + b * ?f w i" if i: "i \<le> Suc n" for i
  proof (cases "i = r")
    case True
    then show ?thesis by (simp add: minor_upd_same algebra_simps)
  next
    case False
    define r' where "r' = (if r < i then r else r - 1)"
    have r': "r' \<le> n" using False i Suc.prems by (auto simp: r'_def)
    have "det_fun (Suc n) ((minor i A)(r' := \<lambda>c. a * u (Suc c) + b * w (Suc c)))
        = a * det_fun (Suc n) ((minor i A)(r' := \<lambda>c. u (Suc c)))
          + b * det_fun (Suc n) ((minor i A)(r' := \<lambda>c. w (Suc c)))"
      by (rule Suc.IH[OF r'])
    then show ?thesis
      using False by (simp add: minor_upd_other r'_def[symmetric] algebra_simps)
  qed
  have "det_fun (Suc (Suc n)) (A(r := \<lambda>c. a * u c + b * w c))
      = (\<Sum>i\<le>Suc n. ?f (\<lambda>c. a * u c + b * w c) i)"
    by (simp only: det_fun.simps)
  also have "\<dots> = (\<Sum>i\<le>Suc n. a * ?f u i + b * ?f w i)"
    by (rule sum.cong) (simp_all only: tm atMost_iff)
  also have "\<dots> = a * (\<Sum>i\<le>Suc n. ?f u i) + b * (\<Sum>i\<le>Suc n. ?f w i)"
    by (simp only: sum.distrib sum_distrib_left)
  finally show ?case by (simp only: det_fun.simps)
qed

lemma det_fun_row_add:
  assumes "r \<le> n"
  shows "det_fun (Suc n) (A(r := \<lambda>c. u c + w c))
       = det_fun (Suc n) (A(r := u)) + det_fun (Suc n) (A(r := w))"
  using det_fun_row_linear[OF assms, of A 1 u 1 w] by simp

lemma det_fun_adjacent_equal:
  "Suc r \<le> n \<Longrightarrow> A r = A (Suc r) \<Longrightarrow> det_fun (Suc n) A = 0"
proof (induction n arbitrary: A r)
  case 0
  then show ?case by simp
next
  case (Suc n)
  let ?f = "\<lambda>i. (- 1) ^ i * A i 0 * det_fun (Suc n) (minor i A)"
  have zero: "?f i = 0" if i: "i \<le> Suc n" "i \<noteq> r" "i \<noteq> Suc r" for i
  proof (cases "i < r")
    case True
    then obtain q where q: "r = Suc q" by (cases r) auto
    have "minor i A q = minor i A (Suc q)"
      using True q Suc.prems(2) by (auto simp: minor_def fun_eq_iff)
    moreover have "Suc q \<le> n" using q Suc.prems(1) by simp
    ultimately have "det_fun (Suc n) (minor i A) = 0" by (rule Suc.IH[rotated])
    then show ?thesis by simp
  next
    case False
    then have gt: "Suc r < i" using i by simp
    have "minor i A r = minor i A (Suc r)"
      using gt Suc.prems(2) by (auto simp: minor_def fun_eq_iff)
    moreover have "Suc r \<le> n" using gt i by simp
    ultimately have "det_fun (Suc n) (minor i A) = 0" by (rule Suc.IH[rotated])
    then show ?thesis by simp
  qed
  have same: "minor r A = minor (Suc r) A"
  proof (intro ext)
    fix q c
    show "minor r A q c = minor (Suc r) A q c"
      using Suc.prems(2) by (cases "q = r") (auto simp: minor_def)
  qed
  have "det_fun (Suc (Suc n)) A = (\<Sum>i\<in>{..Suc n}. ?f i)"
    by (simp only: det_fun.simps)
  also have "\<dots> = (\<Sum>i\<in>{r, Suc r}. ?f i)"
    using Suc.prems(1) by (intro sum.mono_neutral_right) (auto simp: zero simp del: det_fun.simps)
  also have "\<dots> = ?f r + ?f (Suc r)" by simp
  also have "\<dots> = 0" using Suc.prems(2) by (simp add: same del: det_fun.simps)
  finally show ?case .
qed

lemma det_fun_swap_adjacent:
  assumes "Suc r \<le> n"
  shows "det_fun (Suc n) (A(r := A (Suc r), Suc r := A r)) = - det_fun (Suc n) A"
proof -
  let ?x = "A r" and ?y = "A (Suc r)"
  let ?B = "\<lambda>p q. A(r := p, Suc r := q)"
  let ?s = "\<lambda>c. ?x c + ?y c"
  have r: "r \<le> n" using assms by simp
  have eq0: "det_fun (Suc n) (?B p p) = 0" for p
    by (rule det_fun_adjacent_equal[OF assms]) simp
  have first: "det_fun (Suc n) (?B ?s q) = det_fun (Suc n) (?B ?x q) + det_fun (Suc n) (?B ?y q)" for q
  proof -
    have sw: "?B p q = (A(Suc r := q))(r := p)" for p by (simp add: fun_upd_twist)
    show ?thesis unfolding sw by (rule det_fun_row_add[OF r])
  qed
  have second: "det_fun (Suc n) (?B p ?s) = det_fun (Suc n) (?B p ?x) + det_fun (Suc n) (?B p ?y)" for p
    by (rule det_fun_row_add[OF assms])
  have "0 = det_fun (Suc n) (?B ?s ?s)" using eq0[of ?s] by simp
  also have "\<dots> = det_fun (Suc n) (?B ?x ?x) + det_fun (Suc n) (?B ?x ?y)
                   + (det_fun (Suc n) (?B ?y ?x) + det_fun (Suc n) (?B ?y ?y))"
    unfolding first second by (simp only: add.assoc)
  also have "\<dots> = det_fun (Suc n) (?B ?x ?y) + det_fun (Suc n) (?B ?y ?x)"
    by (simp only: eq0 add_0_left add_0_right)
  finally have "det_fun (Suc n) (?B ?y ?x) = - det_fun (Suc n) (?B ?x ?y)" by linarith
  moreover have "?B ?x ?y = A" by (simp add: fun_eq_iff)
  ultimately show ?thesis by simp
qed

lemma det_fun_rows_equal:
  "r < s \<Longrightarrow> s \<le> n \<Longrightarrow> A r = A s \<Longrightarrow> det_fun (Suc n) A = 0"
proof (induction k \<equiv> "s - Suc r" arbitrary: s A)
  case 0
  then have "s = Suc r" by simp
  then show ?case using 0 det_fun_adjacent_equal[of r n A] by simp
next
  case (Suc k)
  then obtain q where q: "s = Suc q" "r < q" by (cases s) auto
  let ?A' = "A(q := A (Suc q), Suc q := A q)"
  have "det_fun (Suc n) ?A' = 0"
  proof (rule Suc.hyps(1))
    show "k = q - Suc r" using Suc.hyps(2) q by simp
    show "r < q" by (rule q)
    show "q \<le> n" using Suc.prems q by simp
    show "?A' r = ?A' q" using q Suc.prems by simp
  qed
  moreover have "det_fun (Suc n) ?A' = - det_fun (Suc n) A"
    using Suc.prems q by (intro det_fun_swap_adjacent) simp
  ultimately show ?case by simp
qed

lemma det_fun_add_first_row:
  assumes "0 < s" "s \<le> n"
  shows "det_fun (Suc n) (A(s := \<lambda>c. A s c + k * A 0 c)) = det_fun (Suc n) A"
proof -
  have "det_fun (Suc n) (A(s := \<lambda>c. 1 * A s c + k * A 0 c))
      = 1 * det_fun (Suc n) (A(s := A s)) + k * det_fun (Suc n) (A(s := A 0))"
    by (rule det_fun_row_linear[OF assms(2)])
  moreover have "det_fun (Suc n) (A(s := A 0)) = 0"
    using assms by (intro det_fun_rows_equal[of 0 s]) simp_all
  ultimately show ?thesis by simp
qed

lemma det_fun_eliminate:
  "m \<le> n \<Longrightarrow>
   det_fun (Suc n) (\<lambda>i. if 0 < i \<and> i \<le> m then (\<lambda>c. A i c + k i * A 0 c) else A i)
     = det_fun (Suc n) A"
proof (induction m)
  case 0
  have "(\<lambda>i. if 0 < i \<and> i \<le> 0 then (\<lambda>c. A i c + k i * A 0 c) else A i) = A"
    by (auto simp: fun_eq_iff)
  then show ?case by (simp only:)
next
  case (Suc m)
  let ?B = "\<lambda>m i. if 0 < i \<and> i \<le> m then (\<lambda>c. A i c + k i * A 0 c) else A i"
  have "?B (Suc m) = (?B m)(Suc m := \<lambda>c. ?B m (Suc m) c + k (Suc m) * ?B m 0 c)"
    by (auto simp: fun_eq_iff)
  then have "det_fun (Suc n) (?B (Suc m)) = det_fun (Suc n) (?B m)"
    using det_fun_add_first_row[of "Suc m" n "?B m" "k (Suc m)"] Suc.prems by simp
  then show ?case using Suc by simp
qed

lemma det_fun_first_column:
  assumes "\<And>i. 0 < i \<Longrightarrow> i \<le> n \<Longrightarrow> A i 0 = 0"
  shows "det_fun (Suc n) A = A 0 0 * det_fun n (minor 0 A)"
proof -
  let ?f = "\<lambda>i. (- 1) ^ i * A i 0 * det_fun n (minor i A)"
  have "det_fun (Suc n) A = (\<Sum>i\<in>{..n}. ?f i)" by simp
  also have "\<dots> = (\<Sum>i\<in>{0}. ?f i)"
    by (intro sum.mono_neutral_right) (auto simp: assms)
  finally show ?thesis by simp
qed

lemma det_fun_gram:
  assumes "\<And>i k. i < k \<Longrightarrow> k < n \<Longrightarrow> h i k = 0"
    and "\<And>k. k < n \<Longrightarrow> h k k \<noteq> 0"
  shows "det_fun n (\<lambda>i j. \<Sum>k<n. h i k * h j k) = (\<Prod>i<n. h i i)\<^sup>2"
  using assms
proof (induction n arbitrary: h)
  case 0
  then show ?case by simp
next
  case (Suc n)
  let ?P = "\<lambda>i j. \<Sum>k<Suc n. h i k * h j k"
  let ?h' = "\<lambda>i k. h (Suc i) (Suc k)"
  let ?P' = "\<lambda>i j. \<Sum>k<n. ?h' i k * ?h' j k"
  let ?B = "\<lambda>i. if 0 < i \<and> i \<le> n then (\<lambda>c. ?P i c + (- h i 0 / h 0 0) * ?P 0 c) else ?P i"
  have h00: "h 0 0 \<noteq> 0" using Suc.prems(2)[of 0] by simp
  have top: "h 0 (Suc k) = 0" if "k < n" for k
    using Suc.prems(1)[of 0 "Suc k"] that by simp
  have P0: "?P 0 j = h 0 0 * h j 0" for j
    by (simp add: sum.lessThan_Suc_shift top del: sum.lessThan_Suc)
  have B_row: "?B i c = (\<Sum>k<n. h i (Suc k) * h c (Suc k))" if "0 < i" "i \<le> n" for i c
  proof -
    have "?B i c = ?P i c + (- h i 0 / h 0 0) * ?P 0 c"
      using that by (simp del: sum.lessThan_Suc)
    also have "\<dots> = ?P i c - h i 0 * h c 0"
      unfolding P0 using h00 by (simp del: sum.lessThan_Suc)
    also have "\<dots> = (\<Sum>k<n. h i (Suc k) * h c (Suc k))"
      by (simp add: sum.lessThan_Suc_shift del: sum.lessThan_Suc)
    finally show ?thesis .
  qed
  have B_col: "?B i 0 = 0" if "0 < i" "i \<le> n" for i
    unfolding B_row[OF that] by (simp add: top)
  have B00: "?B 0 0 = h 0 0 * h 0 0" using P0[of 0] by (simp del: sum.lessThan_Suc)
  have "det_fun n (minor 0 ?B) = det_fun n ?P'"
  proof (rule det_fun_cong)
    fix i j assume "i < n" "j < n"
    then show "minor 0 ?B i j = ?P' i j"
      using B_row[of "Suc i" "Suc j"] by (simp add: minor_def)
  qed
  also have "\<dots> = (\<Prod>i<n. ?h' i i)\<^sup>2"
    by (rule Suc.IH) (use Suc.prems in simp_all)
  finally have minor_det: "det_fun n (minor 0 ?B) = (\<Prod>i<n. h (Suc i) (Suc i))\<^sup>2" .
  have "det_fun (Suc n) ?P = det_fun (Suc n) ?B"
    by (rule det_fun_eliminate[of n n ?P "\<lambda>i. - h i 0 / h 0 0", symmetric]) simp
  also have "\<dots> = ?B 0 0 * det_fun n (minor 0 ?B)"
    by (rule det_fun_first_column) (rule B_col)
  also have "\<dots> = (\<Prod>i<Suc n. h i i)\<^sup>2"
    unfolding minor_det B00
    by (simp add: prod.lessThan_Suc_shift power2_eq_square mult_ac del: prod.lessThan_Suc)
  finally show ?case .
qed

lemma det_fun_zero_row:
  assumes "r < n" "\<And>c. c < n \<Longrightarrow> A r c = 0"
  shows "det_fun n A = 0"
proof -
  obtain m where n: "n = Suc m" using assms(1) by (cases n) auto
  have "det_fun n A = det_fun n (A(r := \<lambda>c. 0 * A r c + 0 * A r c))"
    by (rule det_fun_cong) (simp add: assms(2))
  also have "\<dots> = 0"
    unfolding n using det_fun_row_linear[of r m A 0 "A r" 0 "A r"] assms(1) n by simp
  finally show ?thesis .
qed

lemma det_fun_lower_triangular:
  assumes "\<And>i k. i < k \<Longrightarrow> k < n \<Longrightarrow> h i k = 0"
  shows "det_fun n h = (\<Prod>i<n. h i i)"
  using assms
proof (induction n arbitrary: h)
  case 0
  then show ?case by simp
next
  case (Suc n)
  let ?f = "\<lambda>i. (- 1) ^ i * h i 0 * det_fun n (minor i h)"
  have zero: "?f i = 0" if "0 < i" "i \<le> n" for i
  proof -
    have "det_fun n (minor i h) = 0"
    proof (rule det_fun_zero_row[of 0])
      show "0 < n" using that by simp
      fix c assume "c < n"
      then show "minor i h 0 c = 0" using that Suc.prems[of 0 "Suc c"] by (simp add: minor_def)
    qed
    then show ?thesis by simp
  qed
  have "det_fun n (minor 0 h) = (\<Prod>i<n. minor 0 h i i)"
    by (rule Suc.IH) (simp add: minor_def Suc.prems)
  then have m0: "det_fun n (minor 0 h) = (\<Prod>i<n. h (Suc i) (Suc i))"
    by (simp add: minor_def)
  have "det_fun (Suc n) h = (\<Sum>i\<in>{..n}. ?f i)" by simp
  also have "\<dots> = (\<Sum>i\<in>{0}. ?f i)"
    by (intro sum.mono_neutral_right) (auto simp: zero)
  also have "\<dots> = (\<Prod>i<Suc n. h i i)"
    by (simp add: m0 prod.lessThan_Suc_shift del: prod.lessThan_Suc)
  finally show ?case .
qed

lemma det_2x2: "det [[a, b], [c, e]] = a * e - b * c"
  by (simp add: det_def minor_def numeral_2_eq_2)

lemma det_3x3:
  "det [[a, b, c], [d, e, f], [g, h, i]]
     = a * (e * i - f * h) - b * (d * i - f * g) + c * (d * h - e * g)"
  by (simp add: det_def minor_def numeral_3_eq_3 algebra_simps)

lemma prod_exp_nth: "(\<Prod>i<length d. exp (d ! i)) = exp (sum_list (d :: vec))"
  by (simp add: sum_list_sum_nth atLeast0LessThan exp_sum)

lemma det_cholesky_H:
  assumes "length d = F" "shape W F F"
  shows "det (cholesky_H d W) = exp (sum_list d)"
proof -
  have H: "shape (cholesky_H d W) F F" by (rule cholesky_H_shape[OF assms])
  have "det (cholesky_H d W) = det_fun F (\<lambda>i j. cholesky_H d W ! i ! j)"
    using H by (simp add: det_def shape_length)
  also have "\<dots> = (\<Prod>i<F. cholesky_H d W ! i ! i)"
    by (rule det_fun_lower_triangular) (simp add: cholesky_H_nth[OF assms])
  also have "\<dots> = (\<Prod>i<F. exp (d ! i))"
    by (intro prod.cong refl) (simp add: cholesky_H_nth[OF assms])
  finally show ?thesis using assms(1) prod_exp_nth[of d] by simp
qed

lemma det_precision_P:
  assumes "length d = F" "shape W F F"
  shows "det (precision_P d W) = (exp (sum_list d))\<^sup>2"
proof -
  let ?h = "\<lambda>i k. cholesky_H d W ! i ! k"
  have P: "shape (precision_P d W) F F" by (rule precision_P_shape[OF assms])
  have "det (precision_P d W) = det_fun F (\<lambda>i j. precision_P d W ! i ! j)"
    using P by (simp add: det_def shape_length)
  also have "\<dots> = det_fun F (\<lambda>i j. \<Sum>k<F. ?h i k * ?h j k)"
    by (rule det_fun_cong) (simp add: precision_P_nth[OF assms])
  also have "\<dots> = (\<Prod>i<F. ?h i i)\<^sup>2"
    by (rule det_fun_gram) (simp_all add: cholesky_H_nth[OF assms])
  also have "(\<Prod>i<F. ?h i i) = (\<Prod>i<F. exp (d ! i))"
    by (intro prod.cong refl) (simp add: cholesky_H_nth[OF assms])
  finally show ?thesis using assms(1) prod_exp_nth[of d] by simp
qed

lemma prod_list_nth: "prod_list (map f xs) = (\<Prod>i<length xs. f (xs ! i))" for f :: "real \<Rightarrow> real"
  by (induction xs) (simp_all add: prod.lessThan_Suc_shift del: prod.lessThan_Suc)

lemma det_from_d_nth: "det_from_d d = (\<Prod>i<length d. (exp (d ! i))\<^sup>2)"
  by (simp add: det_from_d_def prod_list_nth)

lemma det_from_d_exp: "det_from_d d = (exp (sum_list d))\<^sup>2"
  unfolding det_from_d_nth prod_exp_nth[symmetric] by (simp add: prod_power_distrib)

section \<open>The claims\<close>

text \<open>
  C1. The claim: \<open>loglik\<close> returns, for each sample \<open>x\<close>,
  \<open>-0.5 F log(2 pi) + sum d - 0.5 (x - mu)\<^sup>T P (x - mu)\<close>, and \<open>nll\<close> is the negated mean.
  The code adds \<open>-0.5 log(2 pi)\<close> whatever \<open>F\<close> is (lemma \<open>loglik_eq\<close>): for one sample at
  the mean with \<open>F = 2\<close>, \<open>d = 0\<close>, \<open>W = 0\<close> it returns \<open>-0.5 log(2 pi)\<close>, and the Gaussian
  log-density there is \<open>-log(2 pi)\<close>.
\<close>

theorem loglik_two_features:
  "loglik [[0, 0]] [0, 0] [0, 0] [[0, 0], [0, 0]] = [- 0.5 * ln (2 * pi)] \<and>
   - 0.5 * ln (2 * pi) \<noteq>
     - 0.5 * 2 * ln (2 * pi) + sum_list [0, 0]
       - 0.5 * quad_form (map2 (-) [0, 0] [0, 0]) (precision_P [0, 0] [[0, 0], [0, 0]])"
proof -
  have "(1::real) < 2 * pi" using pi_ge_two by simp
  then have "0 < ln (2 * pi)" by simp
  moreover have "loglik [[0, 0]] [0, 0] [0, 0] [[0, 0], [0, 0]] = [- 0.5 * ln (2 * pi)]"
    by (simp add: loglik_def sum_dim1_def mat_mul_elem_def precision_P_def matmul_def dot_def
        cholesky_H_def mat_add_def torch_diag_def torch_tril_def)
  ultimately show ?thesis by (simp add: quad_form_def)
qed

text \<open>
  C2. For \<open>d\<close> of length \<open>F\<close> and an \<open>F\<close> by \<open>F\<close> matrix \<open>W\<close>, the matrix \<open>P = H H\<^sup>T\<close> is an
  \<open>F\<close> by \<open>F\<close> matrix equal to its transpose, entry by entry symmetric, and positive
  definite: \<open>v\<^sup>T P v > 0\<close> for every vector \<open>v\<close> of length \<open>F\<close> with a nonzero entry.
\<close>

theorem precision_symmetric_positive_definite:
  assumes "length d = F" "shape W F F"
  shows "shape (precision_P d W) F F \<and>
         transpose (precision_P d W) = precision_P d W \<and>
         (\<forall>i<F. \<forall>j<F. precision_P d W ! i ! j = precision_P d W ! j ! i) \<and>
         (\<forall>v. length v = F \<and> (\<exists>i<F. v ! i \<noteq> 0) \<longrightarrow> 0 < quad_form v (precision_P d W))"
  using precision_P_shape[OF assms] precision_P_transpose[OF assms]
    precision_P_symmetric_nth[OF assms] precision_P_positive[OF assms]
  by blast

theorem precision_symmetric_positive_definite_witness:
  "shape [[1, 2], [3, 4]] 2 2 \<and>
   transpose (precision_P [0, 0] [[1, 2], [3, 4]]) = precision_P [0, 0] [[1, 2], [3, 4]] \<and>
   0 < quad_form [1, - 3] (precision_P [0, 0] [[1, 2], [3, 4]])"
proof -
  have s: "shape [[1, 2], [3, 4]] 2 2" by (simp add: shape_def)
  have v: "length [1, - 3 :: real] = 2 \<and> (\<exists>i<2. [1, - 3 :: real] ! i \<noteq> 0)"
    by (auto intro: exI[of _ 0])
  have l: "length [0, 0 :: real] = 2" by simp
  show ?thesis
    using s v precision_symmetric_positive_definite[OF l s]
    by blast
qed

text \<open>
  C3. For \<open>N \<ge> 1\<close> samples, \<open>K \<ge> 1\<close> components (\<open>n_components = K\<close>, logits \<open>omega\<close> of
  length \<open>K\<close> as the one row of \<open>weights\<close>, \<open>K\<close> parameter triples), \<open>mixture_nll\<close> returns
  \<open>-(1/N)\<close> times the sum over the samples \<open>j\<close> of the log-sum-exp over the components \<open>k\<close>
  of \<open>log_w k + loglik k j\<close>, with \<open>log_w k = omega k - log (sum over l of exp (omega l))\<close>
  and \<open>loglik k\<close> the per-sample values \<open>loglik\<close> returns for component \<open>k\<close>.
\<close>

theorem mixture_nll_formula:
  assumes "length X = N" "0 < N" "0 < K" "length omega = K" "length means = K"
    "length prec_diags = K" "length prec_off_diags = K"
  shows "mixture_nll K X [omega] means prec_diags prec_off_diags =
     Inr (- (1 / real N) *
          (\<Sum>j<N. ln (\<Sum>k<K. exp (omega ! k - ln (\<Sum>l<K. exp (omega ! l))
                                    + loglik X (means ! k) (prec_diags ! k) (prec_off_diags ! k) ! j))))"
  using mixture_nll_eq[OF assms] by (simp add: add.commute)

theorem mixture_nll_formula_witness:
  "mixture_nll 2 [[1, 1]] [[0, 5]] [[0, 0], [1, 1]] [[0, 0], [0, 0]] [[[1, 2], [3, 4]], [[0, 0], [0, 0]]] =
     Inr (- ln (exp (0 - ln (exp 0 + exp 5) + loglik [[1, 1]] [0, 0] [0, 0] [[1, 2], [3, 4]] ! 0)
              + exp (5 - ln (exp 0 + exp 5) + loglik [[1, 1]] [1, 1] [0, 0] [[0, 0], [0, 0]] ! 0)))"
  using mixture_nll_formula[of "[[1, 1]]" 1 2 "[0, 5]" "[[0, 0], [1, 1]]" "[[0, 0], [0, 0]]"
      "[[[1, 2], [3, 4]], [[0, 0], [0, 0]]]"]
  by (simp add: numeral_2_eq_2)

text \<open>
  C4. For \<open>d\<close> of length \<open>F\<close> and an \<open>F\<close> by \<open>F\<close> matrix \<open>W\<close>, the determinant of \<open>P\<close> is the
  product of the \<open>exp (d i)\<^sup>2\<close> that the notebook computes from \<open>d\<close> alone, which is
  \<open>exp (2 * sum d)\<close>; the determinant of \<open>H\<close> is \<open>exp (sum d)\<close>; so
  \<open>sum d = log det H = 0.5 * log det P\<close>.
\<close>

theorem determinant_from_d:
  assumes "length d = F" "shape W F F"
  shows "det (precision_P d W) = det_from_d d \<and>
         det_from_d d = (\<Prod>i<F. (exp (d ! i))\<^sup>2) \<and>
         det (precision_P d W) = exp (2 * sum_list d) \<and>
         det (cholesky_H d W) = exp (sum_list d) \<and>
         sum_list d = ln (det (cholesky_H d W)) \<and>
         sum_list d = 0.5 * ln (det (precision_P d W))"
proof -
  have e2: "(exp (sum_list d))\<^sup>2 = exp (2 * sum_list d)"
    by (simp add: exp_double)
  show ?thesis
    using det_precision_P[OF assms] det_cholesky_H[OF assms] det_from_d_exp[of d]
      det_from_d_nth[of d] assms(1) e2
    by simp
qed

theorem determinant_from_d_witness:
  "shape [[1, 2], [3, 4]] 2 2 \<and>
   precision_P [0, 0] [[1, 2], [3, 4]] = [[1, 3], [3, 10]] \<and>
   det (precision_P [0, 0] [[1, 2], [3, 4]]) = 1 \<and>
   det_from_d [0, 0] = 1 \<and>
   det (precision_P [1, 2] [[1, 2], [3, 4]]) = exp 6 \<and>
   ln (det (cholesky_H [1, 2] [[1, 2], [3, 4]])) = 3"
proof -
  have s: "shape [[1, 2], [3, 4]] 2 2" by (simp add: shape_def)
  have P: "precision_P [0, 0] [[1, 2], [3, 4]] = [[1, 3], [3, 10]]"
    by (simp add: precision_P_def matmul_def dot_def cholesky_H_def mat_add_def torch_diag_def
        torch_tril_def)
  show ?thesis
    using s P determinant_from_d[of "[0, 0]" 2 "[[1, 2], [3, 4]]"]
      determinant_from_d[of "[1, 2]" 2 "[[1, 2], [3, 4]]"]
    by simp
qed

text \<open>
  C5. For a \<open>K\<close> by \<open>N\<close> score matrix with \<open>K \<ge> 1\<close>, \<open>logsumexp\<close> over the component axis
  returns the vector of length \<open>N\<close> whose entry \<open>j\<close> is
  \<open>m j + log (sum over k of exp (scores k j - m j))\<close>, \<open>m j\<close> the maximum of column \<open>j\<close>,
  and that vector is the unshifted \<open>log (sum over k of exp (scores k j))\<close>.
\<close>

theorem logsumexp_component_axis:
  assumes "shape data K N" "0 < K"
  shows "logsumexp data 0 =
           Inr (map (\<lambda>j. col_max data j + ln (\<Sum>k<K. exp (data ! k ! j - col_max data j))) [0..<N]) \<and>
         logsumexp data 0 = Inr (map (\<lambda>j. ln (\<Sum>k<K. exp (data ! k ! j))) [0..<N])"
  using logsumexp_shifted[OF assms] logsumexp_naive[OF assms] by simp

theorem logsumexp_component_axis_witness:
  "shape [[1, 2], [3, 4]] 2 2 \<and>
   logsumexp [[1, 2], [3, 4]] 0 = Inr [ln (exp 1 + exp 3), ln (exp 2 + exp 4)]"
proof -
  have s: "shape [[1, 2], [3, 4]] 2 2" by (simp add: shape_def)
  have "map (\<lambda>j. ln (\<Sum>k<2. exp ([[1, 2], [3, 4 :: real]] ! k ! j))) [0..<2]
      = [ln (exp 1 + exp 3), ln (exp 2 + exp 4)]"
    by (simp add: numeral_2_eq_2)
  then show ?thesis
    using s logsumexp_component_axis[OF s, THEN conjunct2] by simp
qed

text \<open>
  C6. The claim: an axis other than 0 or 1 makes \<open>logsumexp\<close> raise an error that names
  the unsupported axis. The code never raises that error: with the axis \<open>-1\<close> the call
  \<open>torch.max\<close> succeeds and the last branch fails with the \<open>TypeError\<close> of calling
  \<open>NotImplemented\<close>; with the axis \<open>2\<close> \<open>torch.max\<close> itself fails before the branch is
  reached.
\<close>

theorem logsumexp_unsupported_axis:
  "logsumexp [[1, 2], [3, 4]] (- 1) = Inl TypeError \<and>
   logsumexp [[1, 2], [3, 4]] 2 = Inl RuntimeError"
  by (simp add: logsumexp_def torch_max_def)

text \<open>
  C7, as amended. The mixture loop keeps the lowest loss seen so far and stops at the first
  iteration \<open>j\<close> (below the cap of 5000) whose loss is not strictly lower than it, leaving
  the state after \<open>j\<close> updates; when every iteration improves it makes all 5000 updates.
  The single-Gaussian loop has no such check: it makes its 2000 updates whatever the
  losses are.
\<close>

theorem convergence_policy:
  "(j < 5000 \<and> \<not> improves loss step p j \<and> (\<forall>i<j. improves loss step p i) \<longrightarrow>
      mixture_fit loss step p =
        \<lparr>params = (step ^^ j) p, best_loss = best_so_far loss step p j,
         printed = reports loss step p 0 (Suc j) @ [Converged j (loss_at loss step p j)]\<rparr>) \<and>
   ((\<forall>i<5000. improves loss step p i) \<longrightarrow>
      mixture_fit loss step p =
        \<lparr>params = (step ^^ 5000) p, best_loss = best_so_far loss step p 5000,
         printed = reports loss step p 0 5000\<rparr>) \<and>
   gaussian_fit loss step p = ((step ^^ 2000) p, reports loss step p 0 2000)"
  using mixture_fit_stop[of j loss step p] mixture_fit_run[of loss step p]
    gaussian_fit_run[of loss step p]
  by blast

theorem convergence_policy_witness:
  "params (mixture_fit flat_loss Suc 0) = 1 \<and>
   best_loss (mixture_fit flat_loss Suc 0) = Some 0 \<and>
   params (mixture_fit falling_loss Suc 0) = 5000 \<and>
   best_loss (mixture_fit falling_loss Suc 0) = Some (- 4999) \<and>
   fst (gaussian_fit flat_loss Suc 0) = 2000"
proof -
  have a: "(1::nat) < 5000 \<and> \<not> improves flat_loss Suc 0 1 \<and> (\<forall>i<1. improves flat_loss Suc 0 i)"
    by (simp add: improves_def loss_at_def flat_loss_def)
  have b: "\<forall>i<5000. improves falling_loss Suc 0 i"
    by (simp add: improves_falling)
  from convergence_policy[of 1 flat_loss Suc 0] a
  have 1: "mixture_fit flat_loss Suc 0 =
        \<lparr>params = (Suc ^^ 1) 0, best_loss = best_so_far flat_loss Suc 0 1,
         printed = reports flat_loss Suc 0 0 (Suc 1) @ [Converged 1 (loss_at flat_loss Suc 0 1)]\<rparr>"
    and 3: "gaussian_fit flat_loss Suc 0 = ((Suc ^^ 2000) 0, reports flat_loss Suc 0 0 2000)"
    by blast+
  from convergence_policy[of 0 falling_loss Suc 0] b
  have 2: "mixture_fit falling_loss Suc 0 =
        \<lparr>params = (Suc ^^ 5000) 0, best_loss = best_so_far falling_loss Suc 0 5000,
         printed = reports falling_loss Suc 0 0 5000\<rparr>"
    by blast
  have 4: "best_so_far falling_loss Suc 0 5000 = Some (- 4999)"
    using best_so_far_falling[of 4999] by simp
  show ?thesis
    unfolding 1 2 3 4 by (simp add: loss_at_def flat_loss_def)
qed

text \<open>
  C7 as stated fails for the single-Gaussian loop: with a constant loss, iteration 1 does
  not improve on iteration 0, and the loop still makes 2000 updates, not one.
\<close>

theorem gaussian_loop_never_stops_early:
  "\<not> improves flat_loss Suc 0 1 \<and>
   fst (gaussian_fit flat_loss Suc 0) = 2000 \<and>
   (Suc ^^ 1) (0::nat) = 1"
  using not_improves_flat gaussian_fit_run[of flat_loss Suc 0]
  by simp

text \<open>
  C8. Two matrices \<open>W\<close> and \<open>W'\<close> that agree below the diagonal (row index above column
  index) give the same precision matrix \<open>P\<close> and the same \<open>loglik\<close> and \<open>nll\<close>, for all
  \<open>X\<close>, \<open>mu\<close> and \<open>d\<close>.
\<close>

theorem upper_triangle_ignored:
  assumes "shape W F F" "shape W' F F"
    and "\<forall>i<F. \<forall>j<i. W ! i ! j = W' ! i ! j"
  shows "precision_P d W = precision_P d W' \<and>
         loglik X mu d W = loglik X mu d W' \<and>
         nll X mu d W = nll X mu d W'"
proof -
  have "torch_tril W (- 1) = torch_tril W' (- 1)"
    using assms by (intro torch_tril_cong[of W F W']) auto
  then have "precision_P d W = precision_P d W'"
    by (simp add: precision_P_def cholesky_H_def)
  then show ?thesis by (simp add: loglik_def nll_def)
qed

theorem upper_triangle_ignored_witness:
  "shape [[1, 2], [3, 4]] 2 2 \<and> shape [[5, 6], [3, 7]] 2 2 \<and>
   precision_P [0, 0] [[1, 2], [3, 4]] = precision_P [0, 0] [[5, 6], [3, 7]] \<and>
   loglik [[1, 1]] [0, 0] [0, 0] [[1, 2], [3, 4]] = loglik [[1, 1]] [0, 0] [0, 0] [[5, 6], [3, 7]] \<and>
   nll [[1, 1]] [0, 0] [0, 0] [[1, 2], [3, 4]] = nll [[1, 1]] [0, 0] [0, 0] [[5, 6], [3, 7]]"
proof -
  have s: "shape [[1, 2], [3, 4]] 2 2" and s': "shape [[5, 6], [3, 7]] 2 2"
    by (simp_all add: shape_def)
  have a: "\<forall>i<2. \<forall>j<i. [[1, 2], [3, 4 :: real]] ! i ! j = [[5, 6], [3, 7]] ! i ! j"
    by (simp add: numeral_2_eq_2 less_Suc_eq)
  show ?thesis
    using s s' upper_triangle_ignored[OF s s' a, of "[0, 0]" "[[1, 1]]" "[0, 0]"] by simp
qed

text \<open>
  C9. Adding one constant \<open>c\<close> to every weight logit changes neither \<open>mixture_nll\<close> nor
  the normalised weights (the log-softmax the loss uses, and the softmax).
\<close>

theorem mixture_nll_shift_invariant:
  "mixture_nll n_components X (map (map (\<lambda>w. w + c)) weights) means prec_diags prec_off_diags
     = mixture_nll n_components X weights means prec_diags prec_off_diags \<and>
   logsotfmax (map (map (\<lambda>w. w + c)) weights) = logsotfmax weights \<and>
   softmax (map (map (\<lambda>w. w + c)) weights) = softmax weights"
  by (simp add: mixture_nll_def logsotfmax_shift softmax_shift)

text \<open>
  C10. \<open>logsumexp\<close> over the component axis of a matrix with one row returns that row;
  and with one component (\<open>n_components = 1\<close>) and at least one sample, \<open>mixture_nll\<close> is
  \<open>nll\<close> on the same \<open>X\<close>, \<open>mu\<close>, \<open>d\<close>, \<open>W\<close>, whatever the single logit \<open>w\<close> is.
\<close>

theorem single_component_mixture:
  "logsumexp [row] 0 = Inr row \<and>
   (X \<noteq> [] \<longrightarrow> mixture_nll 1 X [[w]] [mu] [d] [W] = Inr (nll X mu d W))"
  using logsumexp_single_row[of row] mixture_nll_single[of X w mu d W] by blast

theorem single_component_mixture_witness:
  "logsumexp [[1, 2]] 0 = Inr [1, 2] \<and>
   mixture_nll 1 [[1, 1]] [[7]] [[0, 0]] [[0, 0]] [[[1, 2], [3, 4]]]
     = Inr (nll [[1, 1]] [0, 0] [0, 0] [[1, 2], [3, 4]])"
  using single_component_mixture[of "[1, 2]" "[[1, 1]]" 7 "[0, 0]" "[0, 0]" "[[1, 2], [3, 4]]"]
  by simp

end
